theory Spec2Isabelle
  imports Main "HOL-Library.Word"
begin

section \<open>The path module of the runtime (POSIX flavour)\<close>

text \<open>
  \<^verbatim>\<open>fs-blob-storage.js\<close> builds every path with \<^verbatim>\<open>path.join\<close> and takes the parent of
  a blob file with \<^verbatim>\<open>path.dirname\<close>. Both are modelled on strings, as the runtime
  defines them: \<^verbatim>\<open>join\<close> drops zero-length arguments, glues the others with a slash
  and normalises the result (empty and \<^verbatim>\<open>.\<close> segments vanish, \<^verbatim>\<open>..\<close> pops a
  segment, a trailing slash is kept, an empty result is \<^verbatim>\<open>.\<close>).
\<close>

fun splitSep :: "string \<Rightarrow> string list" where
  "splitSep [] = [] # []"
| "splitSep (c # cs) =
     (if c = CHR ''/'' then [] # splitSep cs
      else (case splitSep cs of [] \<Rightarrow> [c] # [] | s # ss \<Rightarrow> (c # s) # ss))"

fun joinSep :: "string list \<Rightarrow> string" where
  "joinSep [] = []"
| "joinSep [s] = s"
| "joinSep (s # t # ss) = s @ CHR ''/'' # joinSep (t # ss)"

definition normStep :: "bool \<Rightarrow> string list \<Rightarrow> string \<Rightarrow> string list" where
  "normStep allowAboveRoot res seg =
     (if seg = [] \<or> seg = ''.'' then res
      else if seg = ''..'' then
        (if res \<noteq> [] \<and> last res \<noteq> ''..'' then butlast res
         else if allowAboveRoot then res @ [''..'']
         else res)
      else res @ [seg])"

definition normalizeString :: "string \<Rightarrow> bool \<Rightarrow> string" where
  "normalizeString path allowAboveRoot =
     joinSep (foldl (normStep allowAboveRoot) [] (splitSep path))"

definition normalize_path :: "string \<Rightarrow> string" where
  "normalize_path path =
     (if path = [] then ''.''
      else
        let isAbsolute = (hd path = CHR ''/'');
            trailingSeparator = (last path = CHR ''/'');
            p = normalizeString path (\<not> isAbsolute)
        in if p = [] then
             (if isAbsolute then ''/'' else if trailingSeparator then ''./'' else ''.'')
           else
             (let p' = (if trailingSeparator then p @ ''/'' else p)
              in if isAbsolute then CHR ''/'' # p' else p'))"

definition join :: "string list \<Rightarrow> string" where
  "join args =
     (let joined = joinSep (filter (\<lambda>arg. arg \<noteq> []) args)
      in if joined = [] then ''.'' else normalize_path joined)"

definition dirname :: "string \<Rightarrow> string" where
  "dirname path =
     (if path = [] then ''.''
      else
        let hasRoot = (hd path = CHR ''/'');
            r = dropWhile (\<lambda>c. c \<noteq> CHR ''/'')
                  (dropWhile (\<lambda>c. c = CHR ''/'') (rev (tl path)))
        in if r = [] then (if hasRoot then ''/'' else ''.'')
           else if hasRoot \<and> length r = 1 then ''//''
           else hd path # rev (tl r))"

text \<open>\<^verbatim>\<open>String.prototype.slice(a, b)\<close> for \<open>0 \<le> a \<le> b\<close>: indices past the end are clamped.\<close>

definition slice_str :: "string \<Rightarrow> nat \<Rightarrow> nat \<Rightarrow> string" where
  "slice_str s a b = take (b - a) (drop a s)"

section \<open>The store and its path resolver\<close>

text \<open>
  The constructor keeps three values: the root of the shard tree, the root of the staging
  files and the number of shard levels (\<^verbatim>\<open>{dir = process.cwd(), tmp = '/tmp', depth = 3}\<close>).
  The depth is a natural number, and strings are sequences of 8-bit characters, which
  covers the identifiers and paths the store handles.
\<close>

record fsBlobStorage =
  dir :: string
  tmp :: string
  depth :: nat

definition defaultStorage :: "string \<Rightarrow> fsBlobStorage" where
  "defaultStorage cwd = \<lparr>dir = cwd, tmp = ''/tmp'', depth = 3\<rparr>"

text \<open>The loop of \<^verbatim>\<open>getDirpath\<close>: \<^verbatim>\<open>for (let i = 0; i < depth; i++) parts.push(id.slice(i * 2, i * 2 + 2))\<close>.\<close>

function dirParts :: "string \<Rightarrow> nat \<Rightarrow> nat \<Rightarrow> string list \<Rightarrow> string list" where
  "dirParts ident n i parts =
     (if i < n
      then dirParts ident n (i + 1) (parts @ [slice_str ident (i * 2) (i * 2 + 2)])
      else parts)"
  by pat_completeness auto
termination
  by (relation "measure (\<lambda>(ident, n, i, parts). n - i)") auto

declare dirParts.simps [simp del]

definition getDirpath :: "fsBlobStorage \<Rightarrow> string \<Rightarrow> string" where
  "getDirpath st ident = join (dir st # dirParts ident (depth st) 0 [])"

definition getFilepath :: "fsBlobStorage \<Rightarrow> string \<Rightarrow> string" where
  "getFilepath st ident = join [getDirpath st ident, ident]"

definition tmpFilename :: "fsBlobStorage \<Rightarrow> string \<Rightarrow> string" where
  \<comment> \<open>the second argument is the name that \<^verbatim>\<open>uuid()\<close> returns for this call\<close>
  "tmpFilename st uuid = join [tmp st, uuid]"

section \<open>Vocabulary of the specification\<close>

text \<open>
  A blob identifier is a non-empty string of lowercase hexadecimal digits. The
  specification cuts the first \<open>2 * depth\<close> characters of an identifier into two-character
  segments; \<open>shardSegments\<close> is that cut, written from the specification's words, and is
  compared with the loop of the source below. A plain path is a relative or absolute path
  whose segments are ordinary names: none is empty, \<^verbatim>\<open>.\<close> or \<^verbatim>\<open>..\<close>.
\<close>

definition isHex :: "char \<Rightarrow> bool" where
  "isHex c \<longleftrightarrow> c \<in> set ''0123456789abcdef''"

definition isIdentifier :: "string \<Rightarrow> bool" where
  "isIdentifier ident \<longleftrightarrow> ident \<noteq> [] \<and> list_all isHex ident"

fun shardSegments :: "nat \<Rightarrow> string \<Rightarrow> string list" where
  "shardSegments 0 s = []"
| "shardSegments (Suc n) s = take 2 s # shardSegments n (drop 2 s)"

definition cleanSeg :: "string \<Rightarrow> bool" where
  "cleanSeg s \<longleftrightarrow> s \<noteq> [] \<and> CHR ''/'' \<notin> set s \<and> s \<noteq> ''.'' \<and> s \<noteq> ''..''"

definition plainPath :: "string \<Rightarrow> bool" where
  "plainPath p \<longleftrightarrow>
     p \<noteq> [] \<and> list_all cleanSeg (splitSep (if hd p = CHR ''/'' then tl p else p))"

section \<open>The filesystem\<close>

text \<open>
  The filesystem is a map from path strings to nodes. The two directories \<^verbatim>\<open>/\<close> and
  \<^verbatim>\<open>.\<close> always exist. Every primitive returns either an error code or the updated
  filesystem. Paths are looked up as the strings \<^verbatim>\<open>path.join\<close> and \<^verbatim>\<open>path.dirname\<close> give
  for a plain root and a hexadecimal identifier: normalised, with no trailing slash. A
  path that runs through a regular file cannot be resolved: nothing is mapped below a
  regular file, the primitives never map anything there, and a primitive that finds
  nothing at such a path fails with \<^verbatim>\<open>ENOTDIR\<close> where it would otherwise fail with
  \<^verbatim>\<open>ENOENT\<close>.
\<close>

type_synonym byte = "8 word"
type_synonym buffer = "byte list"

datatype node = File buffer | Directory

type_synonym filesystem = "string \<Rightarrow> node option"

datatype error =
    Error string
  | RangeError
  | ENOENT
  | EISDIR
  | ENOTDIR
  | EEXIST

definition lookupNode :: "filesystem \<Rightarrow> string \<Rightarrow> node option" where
  "lookupNode fs path = (if path = ''/'' \<or> path = ''.'' then Some Directory else fs path)"

definition isFile :: "node option \<Rightarrow> bool" where
  "isFile n = (case n of Some (File c) \<Rightarrow> True | _ \<Rightarrow> False)"

definition existsP :: "filesystem \<Rightarrow> string \<Rightarrow> bool" where
  "existsP fs filepath \<longleftrightarrow> lookupNode fs filepath \<noteq> None"

fun ancestors :: "nat \<Rightarrow> string \<Rightarrow> string list" where
  "ancestors 0 p = [p]"
| "ancestors (Suc n) p = (if dirname p = p then [p] else p # ancestors n (dirname p))"

definition properAncestors :: "string \<Rightarrow> string list" where
  "properAncestors path = tl (ancestors (length path) path)"

definition underFile :: "filesystem \<Rightarrow> string \<Rightarrow> bool" where
  "underFile fs path \<longleftrightarrow> list_ex (\<lambda>a. isFile (lookupNode fs a)) (properAncestors path)"

definition missingError :: "filesystem \<Rightarrow> string \<Rightarrow> error" where
  "missingError fs path = (if underFile fs path then ENOTDIR else ENOENT)"

definition mkdirpP :: "filesystem \<Rightarrow> string \<Rightarrow> error + filesystem" where
  "mkdirpP fs path =
     (let chain = ancestors (length path) path
      in if list_ex (\<lambda>a. isFile (lookupNode fs a)) chain
         then Inl (if isFile (lookupNode fs path) then EEXIST else ENOTDIR)
         else Inr (fold (\<lambda>a m. m(a \<mapsto> Directory)) chain fs))"

definition writeFileP :: "filesystem \<Rightarrow> string \<Rightarrow> buffer \<Rightarrow> error + filesystem" where
  "writeFileP fs path content =
     (case lookupNode fs path of
        Some Directory \<Rightarrow> Inl EISDIR
      | _ \<Rightarrow>
        (case lookupNode fs (dirname path) of
           None \<Rightarrow> Inl (missingError fs path)
         | Some (File c) \<Rightarrow> Inl ENOTDIR
         | Some Directory \<Rightarrow> Inr (fs(path \<mapsto> File content))))"

definition unlinkP :: "filesystem \<Rightarrow> string \<Rightarrow> error + filesystem" where
  "unlinkP fs path =
     (case lookupNode fs path of
        None \<Rightarrow> Inl (missingError fs path)
      | Some Directory \<Rightarrow> Inl EISDIR
      | Some (File c) \<Rightarrow> Inr (fs(path := None)))"

definition copyFileP :: "filesystem \<Rightarrow> string \<Rightarrow> string \<Rightarrow> error + filesystem" where
  "copyFileP fs src dest =
     (case lookupNode fs src of
        None \<Rightarrow> Inl (missingError fs src)
      | Some Directory \<Rightarrow> Inl EISDIR
      | Some (File c) \<Rightarrow> writeFileP fs dest c)"

definition openP :: "filesystem \<Rightarrow> string \<Rightarrow> error + node" where
  "openP fs path =
     (case lookupNode fs path of None \<Rightarrow> Inl (missingError fs path) | Some n \<Rightarrow> Inr n)"

text \<open>
  \<^verbatim>\<open>read(file, buffer, offset, length, position)\<close>: the bytes of the file from
  \<open>position\<close>, at most \<open>length\<close> of them and no more than fit, are written into the buffer
  from \<open>offset\<close> on; the rest of the buffer keeps what it held. A file descriptor is
  modelled by the node it was opened on, and \<^verbatim>\<open>close\<close> changes nothing.
\<close>

definition readP :: "node \<Rightarrow> buffer \<Rightarrow> nat \<Rightarrow> nat \<Rightarrow> nat \<Rightarrow> error + buffer" where
  "readP file buf offset len position =
     (case file of
        Directory \<Rightarrow> Inl EISDIR
      | File c \<Rightarrow>
          (let bytes = take (min len (length buf - offset)) (drop position c)
           in Inr (take offset buf @ bytes @ drop (offset + length bytes) buf)))"

text \<open>
  \<^verbatim>\<open>new Buffer(n)\<close> throws a \<^verbatim>\<open>RangeError\<close> on a negative size and on a size above the
  largest buffer the runtime allows, \<open>kMaxLength\<close>, which differs between runtimes and is
  a parameter here. Otherwise it hands out \<open>n\<close> bytes of memory that nothing has
  initialised; \<open>fill\<close> stands for what that memory holds. Every buffer that exists has at
  most \<open>kMaxLength\<close> bytes.
\<close>

definition newBuffer :: "nat \<Rightarrow> (nat \<Rightarrow> byte) \<Rightarrow> int \<Rightarrow> error + buffer" where
  "newBuffer kMaxLength fill n =
     (if n < 0 \<or> int kMaxLength < n then Inl RangeError else Inr (map fill [0..<nat n]))"

text \<open>
  A write stream on \<open>path\<close> fed by \<^verbatim>\<open>readStream.pipe\<close>: the file is created (or
  truncated) and receives the chunks in order; an error of the stream rejects the promise.
\<close>

definition pipeP :: "filesystem \<Rightarrow> string \<Rightarrow> buffer list \<Rightarrow> error + filesystem" where
  "pipeP fs path chunks = writeFileP fs path (concat chunks)"

section \<open>The digest\<close>

text \<open>
  \<^verbatim>\<open>crypto.createHash('md5')\<close> gives an object that collects the bytes it is fed;
  \<^verbatim>\<open>digest('hex')\<close> is the MD5 of all of them as a hexadecimal string. The MD5 function
  itself is a parameter \<open>md5hex\<close> of every operation that hashes.
\<close>

type_synonym hash = buffer

definition createHash :: hash where
  "createHash = []"

definition hash_update :: "hash \<Rightarrow> buffer \<Rightarrow> hash" where
  "hash_update h chunk = h @ chunk"

definition hash_digest :: "(buffer \<Rightarrow> string) \<Rightarrow> hash \<Rightarrow> string" where
  "hash_digest md5hex h = md5hex h"

text \<open>The \<^verbatim>\<open>'data'\<close> handler of \<^verbatim>\<open>putStream\<close>, run over the chunks of the stream.\<close>

fun onData :: "hash \<Rightarrow> nat \<Rightarrow> buffer list \<Rightarrow> hash \<times> nat" where
  "onData h byteCount [] = (h, byteCount)"
| "onData h byteCount (chunk # chunks) =
     onData (hash_update h chunk) (byteCount + length chunk) chunks"

section \<open>The operations of the store\<close>

datatype content = Buffer buffer | Readable "buffer list"

text \<open>
  \<^verbatim>\<open>put\<close> resolves either with the bare digest string or with the object
  \<^verbatim>\<open>{md5, byteCount}\<close>.
\<close>

datatype put_result = Md5 string | Md5Count string nat

fun identifier_of :: "put_result \<Rightarrow> string" where
  "identifier_of (Md5 md5) = md5"
| "identifier_of (Md5Count md5 byteCount) = md5"

definition putStream ::
  "(buffer \<Rightarrow> string) \<Rightarrow> fsBlobStorage \<Rightarrow> string \<Rightarrow> filesystem \<Rightarrow> buffer list
     \<Rightarrow> (error + put_result) \<times> filesystem" where
  "putStream md5hex st uuid fs readStream =
     (let tmpFile = tmpFilename st uuid
      in if existsP fs tmpFile then (Inl (Error ''File already exists''), fs)
         else
           (case pipeP fs tmpFile readStream of
              Inl e \<Rightarrow> (Inl e, fs)
            | Inr fs1 \<Rightarrow>
                (let (hash, byteCount) = onData createHash 0 readStream;
                     md5 = hash_digest md5hex hash;
                     filepath = getFilepath st md5
                 in if existsP fs1 filepath then
                      (case unlinkP fs1 tmpFile of
                         Inl e \<Rightarrow> (Inl e, fs1)
                       | Inr fs2 \<Rightarrow> (Inr (Md5Count md5 byteCount), fs2))
                    else
                      (case mkdirpP fs1 (dirname filepath) of
                         Inl e \<Rightarrow> (Inl e, fs1)
                       | Inr fs2 \<Rightarrow>
                           (case copyFileP fs2 tmpFile filepath of
                              Inl e \<Rightarrow> (Inl e, fs2)
                            | Inr fs3 \<Rightarrow>
                                (case unlinkP fs3 tmpFile of
                                   Inl e \<Rightarrow> (Inl e, fs3)
                                 | Inr fs4 \<Rightarrow> (Inr (Md5Count md5 byteCount), fs4)))))))"

definition put ::
  "(buffer \<Rightarrow> string) \<Rightarrow> fsBlobStorage \<Rightarrow> string \<Rightarrow> filesystem \<Rightarrow> content
     \<Rightarrow> (error + put_result) \<times> filesystem" where
  "put md5hex st uuid fs content =
     (case content of
        Readable readStream \<Rightarrow> putStream md5hex st uuid fs readStream
      | Buffer b \<Rightarrow>
          (let byteCount = length b;
               md5 = hash_digest md5hex (hash_update createHash b);
               dirpath = getDirpath st md5;
               filepath = getFilepath st md5
           in if existsP fs filepath then (Inr (Md5 md5), fs)
              else
                (case mkdirpP fs dirpath of
                   Inl e \<Rightarrow> (Inl e, fs)
                 | Inr fs1 \<Rightarrow>
                     (case writeFileP fs1 filepath b of
                        Inl e \<Rightarrow> (Inl e, fs1)
                      | Inr fs2 \<Rightarrow> (Inr (Md5Count md5 byteCount), fs2)))))"

text \<open>
  Modelled from the spec: \<^verbatim>\<open>getRangeLength\<close> is imported from \<^verbatim>\<open>../lib/utils\<close>, which is
  not among the sources at hand. The specification has the engine compute the read length
  from the range \<open>[start, end]\<close>, and requires that the range \<open>[s, e]\<close> yields the bytes
  \<open>b[s:e]\<close> and that \<open>[0, len(b)]\<close> yields all of \<open>b\<close>: the length is \<open>end - start\<close>.
\<close>

definition getRangeLength :: "nat \<times> nat \<Rightarrow> int" where
  "getRangeLength rng = int (snd rng) - int (fst rng)"

definition notFoundMessage :: "string \<Rightarrow> string" where
  "notFoundMessage ident = ''Item '' @ [CHR 0x22] @ ident @ [CHR 0x22] @ '' not found''"

definition get ::
  "fsBlobStorage \<Rightarrow> filesystem \<Rightarrow> nat \<Rightarrow> (nat \<Rightarrow> byte) \<Rightarrow> string \<Rightarrow> nat \<times> nat
     \<Rightarrow> error + buffer" where
  "get st fs kMaxLength fill ident rng =
     (let filepath = getFilepath st ident;
          rangeLength = getRangeLength rng
      in case newBuffer kMaxLength fill rangeLength of
           Inl e \<Rightarrow> Inl e
         | Inr buf \<Rightarrow>
             if \<not> existsP fs filepath then Inl (Error (notFoundMessage ident))
             else
               (case openP fs filepath of
                  Inl e \<Rightarrow> Inl e
                | Inr file \<Rightarrow> readP file buf 0 (nat rangeLength) (fst rng)))"

text \<open>
  \<^verbatim>\<open>getStream\<close> resolves with a read stream that has not read anything yet: the path and
  the \<^verbatim>\<open>start\<close> and \<^verbatim>\<open>end\<close> options it was created with. \<^verbatim>\<open>fs.createReadStream\<close> throws
  a \<^verbatim>\<open>RangeError\<close> when \<^verbatim>\<open>start\<close> is greater than \<^verbatim>\<open>end\<close>; that happens after the existence
  check and rejects the promise.
\<close>

record readStream =
  rs_path :: string
  rs_start :: "nat option"
  rs_end :: "nat option"


definition delete :: "fsBlobStorage \<Rightarrow> filesystem \<Rightarrow> string \<Rightarrow> error + filesystem" where
  "delete st fs ident = unlinkP fs (getFilepath st ident)"

definition has :: "fsBlobStorage \<Rightarrow> filesystem \<Rightarrow> string \<Rightarrow> bool" where
  "has st fs ident = existsP fs (getFilepath st ident)"

section \<open>Example values\<close>

text \<open>
  A store rooted at \<^verbatim>\<open>root\<close> with three shard levels, the MD5 digests of the payload
  \<^verbatim>\<open>abc\<close> and of the empty payload, a digest function that knows these two payloads, and
  a filesystem that holds nothing but the staging directory, a staging name and a stream
  that delivers \<^verbatim>\<open>abc\<close> in two chunks, a maximum buffer length, memory full of zeros, and
  a filesystem in which \<^verbatim>\<open>root/90\<close> is a regular file where the store expects a directory.
\<close>

definition exampleStorage :: fsBlobStorage where
  "exampleStorage = \<lparr>dir = ''root'', tmp = ''/tmp'', depth = 3\<rparr>"

definition md5_abc :: string where
  "md5_abc = ''900150983cd24fb0d6963f7d28e17f72''"

definition md5_empty :: string where
  "md5_empty = ''d41d8cd98f00b204e9800998ecf8427e''"

definition abc :: buffer where
  "abc = [0x61, 0x62, 0x63]"

definition exampleDigest :: "buffer \<Rightarrow> string" where
  "exampleDigest b = (if b = abc then md5_abc else md5_empty)"

definition exampleFs :: filesystem where
  "exampleFs = Map.empty(''/tmp'' \<mapsto> Directory)"

definition exampleUuid :: string where
  "exampleUuid = ''1b9d6bcd-bbfd-4b2d-9b5d-ab8dfbbd4bed''"

definition exampleChunks :: "buffer list" where
  "exampleChunks = [0x61] # [0x62, 0x63] # []"

definition exampleMaxLength :: nat where
  "exampleMaxLength = 2147483647"


definition blockedFs :: filesystem where
  "blockedFs = exampleFs(''root'' \<mapsto> Directory, ''root/90'' \<mapsto> File [])"

section \<open>Facts about paths\<close>

lemma splitSep_nonempty: "splitSep s \<noteq> []"
  by (induction s) (auto split: list.splits)

lemma splitSep_append: "splitSep (a @ CHR ''/'' # b) = splitSep a @ splitSep b"
  by (induction a) (auto split: list.splits simp: splitSep_nonempty)

lemma splitSep_noslash: "CHR ''/'' \<notin> set s \<Longrightarrow> splitSep s = [s]"
  by (induction s) auto

lemma joinSep_Cons: "ss \<noteq> [] \<Longrightarrow> joinSep (s # ss) = s @ CHR ''/'' # joinSep ss"
  by (cases ss) auto

lemma joinSep_splitSep: "joinSep (splitSep s) = s"
proof (induction s)
  case Nil
  show ?case by simp
next
  case (Cons c cs)
  show ?case
  proof (cases "c = CHR ''/''")
    case True
    with Cons show ?thesis by (simp add: joinSep_Cons splitSep_nonempty)
  next
    case False
    obtain t ts where sp: "splitSep cs = t # ts"
      using splitSep_nonempty [of cs] by (cases "splitSep cs") auto
    with Cons False show ?thesis by (cases ts) auto
  qed
qed

lemma splitSep_joinSep:
  "ss \<noteq> [] \<Longrightarrow> \<forall>s\<in>set ss. CHR ''/'' \<notin> set s \<Longrightarrow> splitSep (joinSep ss) = ss"
proof (induction ss rule: joinSep.induct)
  case 1
  then show ?case by simp
next
  case (2 s)
  then show ?case by (simp add: splitSep_noslash)
next
  case (3 s t ss)
  then show ?case by (simp add: splitSep_append splitSep_noslash)
qed

lemma splitSep_slashfree: "s \<in> set (splitSep p) \<Longrightarrow> CHR ''/'' \<notin> set s"
  by (induction p arbitrary: s) (auto split: list.splits if_splits)

lemma joinSep_append:
  "a \<noteq> [] \<Longrightarrow> b \<noteq> [] \<Longrightarrow> joinSep (a @ b) = joinSep a @ CHR ''/'' # joinSep b"
  by (induction a rule: joinSep.induct) (auto simp: joinSep_Cons)

lemma foldl_normStep_clean:
  "list_all cleanSeg ss \<Longrightarrow> foldl (normStep a) st ss = st @ ss"
  by (induction ss arbitrary: st) (auto simp: normStep_def cleanSeg_def)

lemma noslash_ends:
  "s \<noteq> [] \<Longrightarrow> CHR ''/'' \<notin> set s \<Longrightarrow> hd s \<noteq> CHR ''/'' \<and> last s \<noteq> CHR ''/''"
  by (metis hd_in_set last_in_set)

lemma joinSep_clean_ends:
  "list_all cleanSeg ss \<Longrightarrow> ss \<noteq> [] \<Longrightarrow>
     joinSep ss \<noteq> [] \<and> hd (joinSep ss) \<noteq> CHR ''/'' \<and> last (joinSep ss) \<noteq> CHR ''/''"
proof (induction ss rule: joinSep.induct)
  case 1
  then show ?case by simp
next
  case (2 s)
  then show ?case using noslash_ends [of s] by (simp add: cleanSeg_def)
next
  case (3 s t ss)
  then show ?case using noslash_ends [of s] by (simp add: cleanSeg_def)
qed

lemma clean_slashfree: "list_all cleanSeg ss \<Longrightarrow> \<forall>s\<in>set ss. CHR ''/'' \<notin> set s"
  by (auto simp: list_all_iff cleanSeg_def)

lemma normalizeString_clean:
  assumes "list_all cleanSeg ss" "ss \<noteq> []"
  shows "normalizeString (joinSep ss) a = joinSep ss"
    and "normalizeString (CHR ''/'' # joinSep ss) a = joinSep ss"
proof -
  have sp: "splitSep (joinSep ss) = ss"
    using assms clean_slashfree by (simp add: splitSep_joinSep)
  show "normalizeString (joinSep ss) a = joinSep ss"
    by (simp add: normalizeString_def sp foldl_normStep_clean assms)
  show "normalizeString (CHR ''/'' # joinSep ss) a = joinSep ss"
    by (simp add: normalizeString_def sp foldl_normStep_clean assms normStep_def)
qed

lemma normalize_path_clean:
  assumes "list_all cleanSeg ss" "ss \<noteq> []"
  shows "normalize_path (joinSep ss) = joinSep ss"
    and "normalize_path (CHR ''/'' # joinSep ss) = CHR ''/'' # joinSep ss"
proof -
  note e = joinSep_clean_ends [OF assms]
  show "normalize_path (joinSep ss) = joinSep ss"
    using e by (simp add: normalize_path_def normalizeString_clean [OF assms])
  show "normalize_path (CHR ''/'' # joinSep ss) = CHR ''/'' # joinSep ss"
    using e by (simp add: normalize_path_def normalizeString_clean [OF assms])
qed

lemma plainPath_decomp:
  assumes "plainPath root"
  obtains pre ds where "pre = [] \<or> pre = ''/''" "ds \<noteq> []" "list_all cleanSeg ds"
    "root = pre @ joinSep ds"
proof (cases "hd root = CHR ''/''")
  case True
  with assms have "root = ''/'' @ joinSep (splitSep (tl root))"
    by (cases root) (auto simp: plainPath_def joinSep_splitSep)
  moreover from assms True have "list_all cleanSeg (splitSep (tl root))"
    by (simp add: plainPath_def)
  ultimately show ?thesis using that [of "''/''" "splitSep (tl root)"]
    by (simp add: splitSep_nonempty)
next
  case False
  with assms have "root = [] @ joinSep (splitSep root)" "list_all cleanSeg (splitSep root)"
    by (simp_all add: plainPath_def joinSep_splitSep)
  then show ?thesis using that [of "[]" "splitSep root"]
    by (simp add: splitSep_nonempty)
qed

lemma plainPath_joinSep:
  assumes "list_all cleanSeg ds" "ds \<noteq> []"
  shows "plainPath (joinSep ds)" and "plainPath (CHR ''/'' # joinSep ds)"
proof -
  note e = joinSep_clean_ends [OF assms]
  have sp: "splitSep (joinSep ds) = ds"
    using assms clean_slashfree by (simp add: splitSep_joinSep)
  show "plainPath (joinSep ds)" using e by (simp add: plainPath_def sp assms)
  show "plainPath (CHR ''/'' # joinSep ds)" by (simp add: plainPath_def sp assms)
qed

lemma join_plain:
  assumes "plainPath root" "list_all cleanSeg ss"
  shows "join (root # ss) = joinSep (root # ss) \<and> plainPath (joinSep (root # ss))"
proof -
  obtain pre ds where d: "pre = [] \<or> pre = ''/''" "ds \<noteq> []" "list_all cleanSeg ds"
    "root = pre @ joinSep ds"
    using assms(1) by (rule plainPath_decomp)
  have ne: "filter (\<lambda>arg. arg \<noteq> []) (root # ss) = root # ss"
    using assms by (auto simp: plainPath_def list_all_iff cleanSeg_def)
  have j: "joinSep (root # ss) = pre @ joinSep (ds @ ss)"
  proof (cases "ss = []")
    case True
    then show ?thesis by (simp add: d)
  next
    case False
    then show ?thesis by (simp add: joinSep_Cons joinSep_append d)
  qed
  have cl: "list_all cleanSeg (ds @ ss)" "ds @ ss \<noteq> []"
    using d assms by simp_all
  have n: "normalize_path (pre @ joinSep (ds @ ss)) = pre @ joinSep (ds @ ss)"
    using d(1) normalize_path_clean [OF cl] by auto
  have p: "plainPath (pre @ joinSep (ds @ ss))"
    using d(1) plainPath_joinSep [OF cl] by auto
  have "joinSep (root # ss) \<noteq> []"
    using j joinSep_clean_ends [OF cl] by simp
  then show ?thesis
    by (simp only: join_def ne Let_def) (simp only: j n p if_False simp_thms)
qed

lemma join_drop_empty: "join (filter (\<lambda>arg. arg \<noteq> []) args) = join args"
  by (simp add: join_def)

lemma dirParts_eq:
  "dirParts ident m i parts =
     parts @ map (\<lambda>k. slice_str ident (k * 2) (k * 2 + 2)) [i..<m]"
proof (induction ident m i parts rule: dirParts.induct)
  case (1 ident m i parts)
  show ?case
  proof (cases "i < m")
    case True
    then show ?thesis
      using "1.IH" by (subst dirParts.simps) (simp add: upt_conv_Cons)
  next
    case False
    then show ?thesis by (subst dirParts.simps) simp
  qed
qed

lemma map_slice_shardSegments:
  "map (\<lambda>k. slice_str ident (k * 2) (k * 2 + 2)) [0..<m] = shardSegments m ident"
proof (induction m arbitrary: ident)
  case 0
  show ?case by simp
next
  case (Suc n)
  have "map (\<lambda>k. slice_str ident (k * 2) (k * 2 + 2)) [0..<Suc n]
      = slice_str ident (0 * 2) (0 * 2 + 2)
        # map (\<lambda>k. slice_str ident (Suc k * 2) (Suc k * 2 + 2)) [0..<n]"
    by (rule map_upt_Suc)
  also have "\<dots> = take 2 ident # map (\<lambda>k. slice_str (drop 2 ident) (k * 2) (k * 2 + 2)) [0..<n]"
    by (simp add: slice_str_def add.commute numeral_2_eq_2)
  also have "\<dots> = shardSegments (Suc n) ident"
    by (simp only: Suc.IH shardSegments.simps)
  finally show ?case .
qed

lemma dirParts_shardSegments: "dirParts ident m 0 [] = shardSegments m ident"
  by (simp only: dirParts_eq map_slice_shardSegments append_Nil)

lemma isHex_not_special: "isHex c \<Longrightarrow> c \<noteq> CHR ''/'' \<and> c \<noteq> CHR ''.''"
  by (auto simp: isHex_def)

lemma isHex_cleanSeg: "list_all isHex s \<Longrightarrow> s \<noteq> [] \<Longrightarrow> cleanSeg s"
proof -
  assume h: "list_all isHex s" and ne: "s \<noteq> []"
  have a: "CHR ''/'' \<notin> set s" "CHR ''.'' \<notin> set s"
    using h isHex_not_special unfolding list_all_iff by blast+
  have "s \<noteq> ''.''" "s \<noteq> ''..''" using a(2) by auto
  with a ne show ?thesis by (simp add: cleanSeg_def)
qed

lemma shardSegments_hex:
  "list_all isHex s \<Longrightarrow> x \<in> set (shardSegments n s) \<Longrightarrow> list_all isHex x"
proof (induction n arbitrary: s)
  case 0
  then show ?case by simp
next
  case (Suc n)
  have "list_all isHex (take 2 s)" "list_all isHex (drop 2 s)"
    using Suc.prems(1) by (auto simp: list_all_iff dest: in_set_takeD in_set_dropD)
  with Suc show ?case by auto
qed

lemma shardSegments_empty: "x \<in> set (shardSegments n []) \<Longrightarrow> x = []"
  by (induction n) auto

lemma filter_shardSegments:
  "filter (\<lambda>x. x \<noteq> []) (shardSegments n s) =
     shardSegments (min n ((length s + 1) div 2)) s"
proof (induction n arbitrary: s)
  case 0
  show ?case by simp
next
  case (Suc n)
  show ?case
  proof (cases "s = []")
    case True
    have "filter (\<lambda>x. x \<noteq> []) (shardSegments n []) = []"
      by (auto simp: filter_empty_conv dest: shardSegments_empty)
    with True show ?thesis by simp
  next
    case False
    then have "(length s + 1) div 2 = Suc ((length (drop 2 s) + 1) div 2)"
      by (cases s) auto
    with False Suc.IH [of "drop 2 s"] show ?thesis by simp
  qed
qed

lemma shardSegments_full:
  "2 * n \<le> length s \<Longrightarrow>
     length (shardSegments n s) = n \<and> (\<forall>x\<in>set (shardSegments n s). length x = 2) \<and>
     concat (shardSegments n s) = take (2 * n) s"
proof (induction n arbitrary: s)
  case 0
  show ?case by simp
next
  case (Suc n)
  then have "2 * n \<le> length (drop 2 s)" by simp
  from Suc.IH [OF this] Suc.prems show ?case
    by (simp add: take_add [symmetric] min_def)
qed

lemma getDirpath_plain:
  assumes "plainPath (dir st)" "list_all isHex ident"
  shows "getDirpath st ident =
           joinSep (dir st # shardSegments (min (depth st) ((length ident + 1) div 2)) ident) \<and>
         plainPath (getDirpath st ident)"
proof -
  let ?ss = "filter (\<lambda>x. x \<noteq> []) (shardSegments (depth st) ident)"
  have "dir st \<noteq> []" using assms(1) by (simp add: plainPath_def)
  then have "join (dir st # shardSegments (depth st) ident) = join (dir st # ?ss)"
    using join_drop_empty [of "dir st # shardSegments (depth st) ident"] by simp
  moreover have "list_all cleanSeg ?ss"
    using shardSegments_hex [OF assms(2)] by (auto simp: list_all_iff intro: isHex_cleanSeg)
  ultimately show ?thesis
    using join_plain [OF assms(1), of ?ss]
    by (simp add: getDirpath_def dirParts_shardSegments filter_shardSegments)
qed

lemma joinSep_snoc: "xs \<noteq> [] \<Longrightarrow> joinSep (xs @ [s]) = joinSep xs @ CHR ''/'' # s"
  by (simp add: joinSep_append)

lemma getFilepath_plain:
  assumes "plainPath (dir st)" "list_all isHex ident"
  shows "getFilepath st ident =
           (if ident = [] then dir st
            else joinSep (dir st # shardSegments (min (depth st) ((length ident + 1) div 2)) ident
                            @ [ident]))"
proof -
  let ?D = "getDirpath st ident"
  let ?ss = "shardSegments (min (depth st) ((length ident + 1) div 2)) ident"
  note D = getDirpath_plain [OF assms]
  show ?thesis
  proof (cases "ident = []")
    case True
    have "join (?D # [] # []) = join (?D # [])"
      by (simp add: join_def)
    also have "\<dots> = ?D" using join_plain [OF conjunct2 [OF D], of "[]"] by simp
    also have "\<dots> = dir st" using D True by simp
    finally show ?thesis using True by (simp add: getFilepath_def)
  next
    case False
    then have "list_all cleanSeg [ident]" using assms(2) by (simp add: isHex_cleanSeg)
    from join_plain [OF conjunct2 [OF D] this]
    have "join [?D, ident] = ?D @ CHR ''/'' # ident" by simp
    also have "\<dots> = joinSep (dir st # ?ss) @ CHR ''/'' # ident"
      using D by simp
    also have "\<dots> = joinSep (dir st # ?ss @ [ident])"
      using joinSep_snoc [of "dir st # ?ss" ident] by simp
    finally show ?thesis using False by (simp add: getFilepath_def)
  qed
qed

lemma normStep_subset: "set (normStep a st g) \<subseteq> insert g (set st)"
proof (cases "st = [] \<or> last st = ''..''")
  case True
  then show ?thesis by (auto simp: normStep_def)
next
  case False
  then have "set (butlast st) \<subseteq> set st" by (auto dest: in_set_butlastD)
  with False show ?thesis by (auto simp: normStep_def)
qed

lemma foldl_normStep_slashfree:
  "\<forall>x\<in>set st. CHR ''/'' \<notin> set x \<Longrightarrow> \<forall>x\<in>set segs. CHR ''/'' \<notin> set x \<Longrightarrow>
     \<forall>x\<in>set (foldl (normStep a) st segs). CHR ''/'' \<notin> set x"
proof (induction segs arbitrary: st)
  case Nil
  then show ?case by simp
next
  case (Cons g segs)
  have "\<forall>x\<in>set (normStep a st g). CHR ''/'' \<notin> set x"
    using Cons.prems normStep_subset [of a st g] by auto
  moreover have "\<forall>x\<in>set segs. CHR ''/'' \<notin> set x"
    using Cons.prems(2) by simp
  ultimately have "\<forall>x\<in>set (foldl (normStep a) (normStep a st g) segs). CHR ''/'' \<notin> set x"
    by (rule Cons.IH)
  then show ?case by simp
qed

lemma joinSep_snoc_nonempty: "s \<noteq> [] \<Longrightarrow> joinSep (st @ [s]) \<noteq> []"
  by (cases "st = []") (simp_all add: joinSep_append)

lemma basename_join:
  assumes "cleanSeg s"
  shows "last (splitSep (join [D, s])) = s"
proof (cases "D = []")
  case True
  have "normalize_path (joinSep [s]) = joinSep [s]"
    using assms by (intro normalize_path_clean) simp_all
  with True assms show ?thesis
    by (simp add: join_def cleanSeg_def splitSep_noslash)
next
  case False
  define a where "a \<longleftrightarrow> hd D \<noteq> CHR ''/''"
  define st where "st = foldl (normStep a) [] (splitSep D)"
  have s: "s \<noteq> []" "last s \<noteq> CHR ''/''" "CHR ''/'' \<notin> set s" "s \<noteq> ''.''" "s \<noteq> ''..''"
    using assms noslash_ends [of s] by (simp_all add: cleanSeg_def)
  have sf: "\<forall>x\<in>set (st @ [s]). CHR ''/'' \<notin> set x"
    using foldl_normStep_slashfree [of "[]" "splitSep D" a] s(3)
    by (auto simp: st_def dest: splitSep_slashfree)
  have ns: "normalizeString (D @ CHR ''/'' # s) a = joinSep (st @ [s])"
    using s by (simp add: normalizeString_def splitSep_append splitSep_noslash
        normStep_def st_def)
  have ne: "joinSep (st @ [s]) \<noteq> []"
    using s(1) by (rule joinSep_snoc_nonempty)
  have h: "hd (D @ CHR ''/'' # s) = hd D" "last (D @ CHR ''/'' # s) \<noteq> CHR ''/''"
    "D @ CHR ''/'' # s \<noteq> []" "(hd D = CHR ''/'') = (\<not> a)"
    using False s by (simp_all add: a_def)
  have sp: "splitSep (joinSep (st @ [s])) = st @ [s]"
    using sf by (intro splitSep_joinSep) simp_all
  have "join [D, s] = normalize_path (D @ CHR ''/'' # s)"
    using False s by (simp add: join_def)
  also have "\<dots> = (if a then joinSep (st @ [s]) else CHR ''/'' # joinSep (st @ [s]))"
    using ne s(1,2) by (simp add: normalize_path_def Let_def h ns)
  finally show ?thesis by (simp add: sp)
qed

lemma basename_getFilepath:
  "cleanSeg ident \<Longrightarrow> last (splitSep (getFilepath st ident)) = ident"
  by (simp add: getFilepath_def basename_join)

lemma concat_shardSegments: "concat (shardSegments n s) = take (2 * n) s"
proof (induction n arbitrary: s)
  case 0
  show ?case by simp
next
  case (Suc n)
  have "take 2 s @ take (2 * n) (drop 2 s) = take (2 + 2 * n) s"
    by (simp only: take_add)
  then show ?case by (simp add: Suc.IH)
qed

lemma length_shardSegments: "length (shardSegments n s) = n"
  by (induction n arbitrary: s) simp_all

lemma length_concat_ge:
  "\<forall>x\<in>set xs. 2 \<le> length x \<Longrightarrow> 2 * length xs \<le> length (concat xs)"
  by (induction xs) auto

lemma short_has_truncated_segment:
  assumes "length s < 2 * n"
  shows "\<exists>seg\<in>set (shardSegments n s). length seg < 2"
proof (rule ccontr)
  assume "\<not> ?thesis"
  then have "\<forall>x\<in>set (shardSegments n s). 2 \<le> length x" by auto
  from length_concat_ge [OF this]
  have "2 * n \<le> length (take (2 * n) s)"
    by (simp only: concat_shardSegments length_shardSegments)
  with assms show False by simp
qed

section \<open>Shard paths\<close>

text \<open>
  C3. For a store whose root is a plain path and an identifier of at least \<open>2 * depth\<close>
  hexadecimal characters, the resolved file path is the root, then \<open>depth\<close> segments, then
  the identifier, joined by slashes. The segments are the ones the loop of \<^verbatim>\<open>getDirpath\<close>
  pushes; there are \<open>depth\<close> of them, each has two characters, and in order they spell the
  first \<open>2 * depth\<close> characters of the identifier.
\<close>

theorem getFilepath_sharded:
  assumes "plainPath (dir st)" and "isIdentifier ident" and "2 * depth st \<le> length ident"
  shows "getFilepath st ident = joinSep (dir st # shardSegments (depth st) ident @ [ident]) \<and>
         dirParts ident (depth st) 0 [] = shardSegments (depth st) ident \<and>
         length (shardSegments (depth st) ident) = depth st \<and>
         (\<forall>seg\<in>set (shardSegments (depth st) ident). length seg = 2) \<and>
         concat (shardSegments (depth st) ident) = take (2 * depth st) ident"
proof -
  have "min (depth st) ((length ident + 1) div 2) = depth st" using assms(3) by simp
  then show ?thesis
    using getFilepath_plain [OF assms(1), of ident] assms(2)
      shardSegments_full [OF assms(3)]
    by (simp add: isIdentifier_def dirParts_shardSegments)
qed

text \<open>
  The scenario of the specification: with three levels the digest of \<^verbatim>\<open>abc\<close> resolves to
  \<^verbatim>\<open>root/90/01/50/900150983cd24fb0d6963f7d28e17f72\<close>.
\<close>

theorem getFilepath_sharded_witness:
  "plainPath (dir exampleStorage) \<and> isIdentifier md5_abc \<and>
   2 * depth exampleStorage \<le> length md5_abc \<and>
   getFilepath exampleStorage md5_abc = ''root/90/01/50/900150983cd24fb0d6963f7d28e17f72''"
proof -
  have h1: "plainPath (dir exampleStorage)" by code_simp
  have h2: "isIdentifier md5_abc" by code_simp
  have h3: "2 * depth exampleStorage \<le> length md5_abc" by code_simp
  have e: "joinSep (dir exampleStorage # shardSegments (depth exampleStorage) md5_abc @ [md5_abc])
             = ''root/90/01/50/900150983cd24fb0d6963f7d28e17f72''"
    by code_simp
  from getFilepath_sharded [OF h1 h2 h3]
  have "getFilepath exampleStorage md5_abc
          = joinSep (dir exampleStorage # shardSegments (depth exampleStorage) md5_abc @ [md5_abc])"
    by (rule conjunct1)
  then have "getFilepath exampleStorage md5_abc = ''root/90/01/50/900150983cd24fb0d6963f7d28e17f72''"
    by (simp only: e)
  with h1 h2 h3 show ?thesis by (intro conjI)
qed

text \<open>
  C4. Two different identifiers never resolve to the same file path, whatever the root
  and the depth of the store: the last segment of the resolved path is the identifier
  itself. The lower bound on the length of the identifiers is not needed.
\<close>

theorem getFilepath_injective:
  assumes "isIdentifier id1" and "isIdentifier id2" and "id1 \<noteq> id2"
  shows "getFilepath st id1 \<noteq> getFilepath st id2"
proof
  assume eq: "getFilepath st id1 = getFilepath st id2"
  have "cleanSeg id1" "cleanSeg id2"
    using assms by (simp_all add: isIdentifier_def isHex_cleanSeg)
  then have "last (splitSep (getFilepath st id1)) = id1"
    "last (splitSep (getFilepath st id2)) = id2"
    by (simp_all add: basename_getFilepath)
  with eq assms(3) show False by simp
qed

theorem getFilepath_injective_witness:
  "isIdentifier md5_abc \<and> isIdentifier md5_empty \<and> md5_abc \<noteq> md5_empty \<and>
   getFilepath exampleStorage md5_abc \<noteq> getFilepath exampleStorage md5_empty"
proof -
  have h1: "isIdentifier md5_abc" by code_simp
  have h2: "isIdentifier md5_empty" by code_simp
  have h3: "md5_abc \<noteq> md5_empty" by code_simp
  from h1 h2 h3 getFilepath_injective [OF h1 h2 h3, of exampleStorage]
  show ?thesis by (intro conjI)
qed

text \<open>
  C10. An identifier shorter than \<open>2 * depth\<close> characters is resolved like any other:
  \<^verbatim>\<open>getDirpath\<close> and \<^verbatim>\<open>getFilepath\<close> have no failing branch. Some slice of the loop is then
  empty or has a single character, \<^verbatim>\<open>path.join\<close> drops the empty ones, and the directory
  path has only \<open>(length ident + 1) div 2\<close> levels below the root; the empty identifier
  resolves to the root itself.
\<close>

theorem short_identifier_resolves:
  assumes "plainPath (dir st)" and "list_all isHex ident" and "length ident < 2 * depth st"
  shows "(\<exists>seg\<in>set (dirParts ident (depth st) 0 []). length seg < 2) \<and>
         length (filter (\<lambda>seg. seg \<noteq> []) (dirParts ident (depth st) 0 []))
           = (length ident + 1) div 2 \<and>
         getDirpath st ident
           = joinSep (dir st # shardSegments ((length ident + 1) div 2) ident) \<and>
         getFilepath st ident
           = (if ident = [] then dir st
              else joinSep (dir st # shardSegments ((length ident + 1) div 2) ident @ [ident]))"
proof -
  have m: "min (depth st) ((length ident + 1) div 2) = (length ident + 1) div 2"
    using assms(3) by simp
  have "\<exists>seg\<in>set (dirParts ident (depth st) 0 []). length seg < 2"
    using short_has_truncated_segment [OF assms(3)] by (simp only: dirParts_shardSegments)
  moreover have "length (filter (\<lambda>seg. seg \<noteq> []) (dirParts ident (depth st) 0 []))
      = (length ident + 1) div 2"
    by (simp only: dirParts_shardSegments filter_shardSegments m length_shardSegments)
  moreover have "getDirpath st ident
      = joinSep (dir st # shardSegments ((length ident + 1) div 2) ident)"
    using getDirpath_plain [OF assms(1,2)] by (simp only: m)
  moreover have "getFilepath st ident
      = (if ident = [] then dir st
         else joinSep (dir st # shardSegments ((length ident + 1) div 2) ident @ [ident]))"
    using getFilepath_plain [OF assms(1,2)] by (simp only: m)
  ultimately show ?thesis by (intro conjI)
qed

text \<open>
  With three levels the one-character identifier \<^verbatim>\<open>a\<close> lands one level below the root,
  and the empty identifier resolves to the root directory.
\<close>

theorem short_identifier_resolves_witness:
  "plainPath (dir exampleStorage) \<and> list_all isHex ''a'' \<and> list_all isHex [] \<and>
   length ''a'' < 2 * depth exampleStorage \<and>
   getDirpath exampleStorage ''a'' = ''root/a'' \<and>
   getFilepath exampleStorage ''a'' = ''root/a/a'' \<and>
   getFilepath exampleStorage [] = ''root''"
proof -
  have h1: "plainPath (dir exampleStorage)" by code_simp
  have h2: "list_all isHex ''a''" by code_simp
  have h2': "list_all isHex ([] :: string)" by simp
  have h3: "length ''a'' < 2 * depth exampleStorage" by code_simp
  have h3': "length ([] :: string) < 2 * depth exampleStorage" by code_simp
  have e1: "joinSep (dir exampleStorage # shardSegments ((length ''a'' + 1) div 2) ''a'') = ''root/a''"
    by code_simp
  have e2: "(if ''a'' = [] then dir exampleStorage
             else joinSep (dir exampleStorage # shardSegments ((length ''a'' + 1) div 2) ''a'' @ [''a'']))
            = ''root/a/a''"
    by code_simp
  have e3: "dir exampleStorage = ''root''" by code_simp
  note a = short_identifier_resolves [OF h1 h2 h3]
  note b = short_identifier_resolves [OF h1 h2' h3']
  have "getDirpath exampleStorage ''a'' = ''root/a''"
    using a by (simp only: e1)
  moreover have "getFilepath exampleStorage ''a'' = ''root/a/a''"
    using a by (simp only: e2)
  moreover have "getFilepath exampleStorage [] = ''root''"
    using b by (simp only: e3 if_True simp_thms)
  ultimately show ?thesis using h1 h2 h2' h3 by (intro conjI)
qed

section \<open>Facts about the filesystem and the operations\<close>

lemma onData_eq:
  "onData h n chunks = (h @ concat chunks, n + length (concat chunks))"
  by (induction chunks arbitrary: h n) (simp_all add: hash_update_def)

lemma unlinkP_removes: "unlinkP fs path = Inr fs' \<Longrightarrow> fs' = fs(path := None) \<and> isFile (lookupNode fs path)"
  by (auto simp: unlinkP_def isFile_def split: option.splits node.splits)

lemma isFile_not_special: "isFile (lookupNode fs path) \<Longrightarrow> path \<noteq> ''/'' \<and> path \<noteq> ''.''"
  by (auto simp: lookupNode_def isFile_def)

lemma writeFileP_result: "writeFileP fs path c = Inr fs' \<Longrightarrow> fs' = fs(path \<mapsto> File c)"
  by (auto simp: writeFileP_def split: option.splits node.splits)

lemma copyFileP_result:
  "copyFileP fs src dest = Inr fs' \<Longrightarrow> \<exists>c. lookupNode fs src = Some (File c) \<and> fs' = fs(dest \<mapsto> File c)"
  by (auto simp: copyFileP_def dest: writeFileP_result split: option.splits node.splits)

lemma unlinkP_gone: "unlinkP fs path = Inr fs' \<Longrightarrow> \<not> existsP fs' path"
proof -
  assume u: "unlinkP fs path = Inr fs'"
  from unlinkP_removes [OF u] have a: "fs' = fs(path := None)"
    and b: "isFile (lookupNode fs path)" by simp_all
  from isFile_not_special [OF b] have c: "path \<noteq> ''/''" "path \<noteq> ''.''" by simp_all
  show ?thesis by (simp add: existsP_def lookupNode_def a c)
qed

lemma putStream_success:
  assumes "putStream md5hex st uuid fs chunks = (Inr r, fs')"
  obtains fs1 where "\<not> existsP fs (tmpFilename st uuid)"
    and "pipeP fs (tmpFilename st uuid) chunks = Inr fs1"
    and "(if existsP fs1 (getFilepath st (md5hex (concat chunks))) then
            (case unlinkP fs1 (tmpFilename st uuid) of
               Inl e \<Rightarrow> (Inl e, fs1)
             | Inr fs2 \<Rightarrow> (Inr (Md5Count (md5hex (concat chunks)) (length (concat chunks))), fs2))
          else
            (case mkdirpP fs1 (dirname (getFilepath st (md5hex (concat chunks)))) of
               Inl e \<Rightarrow> (Inl e, fs1)
             | Inr fs2 \<Rightarrow>
                 (case copyFileP fs2 (tmpFilename st uuid) (getFilepath st (md5hex (concat chunks))) of
                    Inl e \<Rightarrow> (Inl e, fs2)
                  | Inr fs3 \<Rightarrow>
                      (case unlinkP fs3 (tmpFilename st uuid) of
                         Inl e \<Rightarrow> (Inl e, fs3)
                       | Inr fs4 \<Rightarrow>
                           (Inr (Md5Count (md5hex (concat chunks)) (length (concat chunks))), fs4)))))
         = (Inr r, fs')"
proof -
  let ?tmp = "tmpFilename st uuid"
  have ne: "\<not> existsP fs ?tmp"
  proof
    assume "existsP fs ?tmp"
    then have "putStream md5hex st uuid fs chunks = (Inl (Error ''File already exists''), fs)"
      by (simp add: putStream_def)
    with assms show False by simp
  qed
  show thesis
  proof (cases "pipeP fs ?tmp chunks")
    case (Inl e)
    with ne have "putStream md5hex st uuid fs chunks = (Inl e, fs)"
      by (simp add: putStream_def)
    with assms show thesis by simp
  next
    case (Inr fs1)
    show thesis
    proof (rule that [OF ne Inr])
      show "(if existsP fs1 (getFilepath st (md5hex (concat chunks))) then
            (case unlinkP fs1 (tmpFilename st uuid) of
               Inl e \<Rightarrow> (Inl e, fs1)
             | Inr fs2 \<Rightarrow> (Inr (Md5Count (md5hex (concat chunks)) (length (concat chunks))), fs2))
          else
            (case mkdirpP fs1 (dirname (getFilepath st (md5hex (concat chunks)))) of
               Inl e \<Rightarrow> (Inl e, fs1)
             | Inr fs2 \<Rightarrow>
                 (case copyFileP fs2 (tmpFilename st uuid) (getFilepath st (md5hex (concat chunks))) of
                    Inl e \<Rightarrow> (Inl e, fs2)
                  | Inr fs3 \<Rightarrow>
                      (case unlinkP fs3 (tmpFilename st uuid) of
                         Inl e \<Rightarrow> (Inl e, fs3)
                       | Inr fs4 \<Rightarrow>
                           (Inr (Md5Count (md5hex (concat chunks)) (length (concat chunks))), fs4)))))
         = (Inr r, fs')"
        using assms ne Inr
        by (simp add: putStream_def Let_def onData_eq createHash_def hash_digest_def)
    qed
  qed
qed

lemma putStream_result:
  assumes "putStream md5hex st uuid fs chunks = (Inr r, fs')"
  shows "r = Md5Count (md5hex (concat chunks)) (length (concat chunks))"
proof -
  let ?tmp = "tmpFilename st uuid"
  let ?md5 = "md5hex (concat chunks)"
  let ?fp = "getFilepath st ?md5"
  from assms obtain fs1 where body:
    "(if existsP fs1 ?fp then
        (case unlinkP fs1 ?tmp of
           Inl e \<Rightarrow> (Inl e, fs1)
         | Inr fs2 \<Rightarrow> (Inr (Md5Count ?md5 (length (concat chunks))), fs2))
      else
        (case mkdirpP fs1 (dirname ?fp) of
           Inl e \<Rightarrow> (Inl e, fs1)
         | Inr fs2 \<Rightarrow>
             (case copyFileP fs2 ?tmp ?fp of
                Inl e \<Rightarrow> (Inl e, fs2)
              | Inr fs3 \<Rightarrow>
                  (case unlinkP fs3 ?tmp of
                     Inl e \<Rightarrow> (Inl e, fs3)
                   | Inr fs4 \<Rightarrow> (Inr (Md5Count ?md5 (length (concat chunks))), fs4)))))
     = (Inr r, fs')"
    by (rule putStream_success)
  then show ?thesis
    by (simp split: if_splits sum.splits)
qed

lemma put_existing:
  "existsP fs (getFilepath st (md5hex b)) \<Longrightarrow>
     put md5hex st uuid fs (Buffer b) = (Inr (Md5 (md5hex b)), fs)"
  by (simp add: put_def Let_def hash_digest_def hash_update_def createHash_def)

lemma put_fresh:
  assumes "\<not> existsP fs (getFilepath st (md5hex b))"
    and "put md5hex st uuid fs (Buffer b) = (Inr r, fs')"
  obtains fs1 where "mkdirpP fs (getDirpath st (md5hex b)) = Inr fs1"
    and "writeFileP fs1 (getFilepath st (md5hex b)) b = Inr fs'"
    and "r = Md5Count (md5hex b) (length b)"
proof -
  let ?fp = "getFilepath st (md5hex b)"
  let ?dp = "getDirpath st (md5hex b)"
  have u: "put md5hex st uuid fs (Buffer b) =
      (case mkdirpP fs ?dp of
         Inl e \<Rightarrow> (Inl e, fs)
       | Inr fs1 \<Rightarrow>
           (case writeFileP fs1 ?fp b of
              Inl e \<Rightarrow> (Inl e, fs1)
            | Inr fs2 \<Rightarrow> (Inr (Md5Count (md5hex b) (length b)), fs2)))"
    using assms(1) by (simp add: put_def Let_def hash_digest_def hash_update_def createHash_def)
  show thesis
  proof (cases "mkdirpP fs ?dp")
    case (Inl e)
    with u assms(2) show thesis by simp
  next
    case m: (Inr fs1)
    show thesis
    proof (cases "writeFileP fs1 ?fp b")
      case (Inl e)
      with u m assms(2) show thesis by simp
    next
      case (Inr fs2)
      with u m assms(2) have "r = Md5Count (md5hex b) (length b)" "fs2 = fs'" by simp_all
      with m Inr show thesis by (intro that) simp_all
    qed
  qed
qed

lemma put_buffer_identifier:
  assumes "put md5hex st uuid fs (Buffer b) = (Inr r, fs')"
  shows "identifier_of r = md5hex b"
proof (cases "existsP fs (getFilepath st (md5hex b))")
  case True
  then have "put md5hex st uuid fs (Buffer b) = (Inr (Md5 (md5hex b)), fs)"
    by (rule put_existing)
  with assms show ?thesis by auto
next
  case False
  from False assms obtain fs1 where "r = Md5Count (md5hex b) (length b)"
    by (rule put_fresh)
  then show ?thesis by simp
qed

lemma put_buffer_stored:
  assumes "put md5hex st uuid fs (Buffer b) = (Inr r, fs')"
    and "lookupNode fs (getFilepath st (md5hex b)) = None \<or>
         lookupNode fs (getFilepath st (md5hex b)) = Some (File b)"
  shows "lookupNode fs' (getFilepath st (md5hex b)) = Some (File b)"
proof (cases "existsP fs (getFilepath st (md5hex b))")
  case True
  then have "put md5hex st uuid fs (Buffer b) = (Inr (Md5 (md5hex b)), fs)"
    by (rule put_existing)
  with assms(1) have "fs' = fs" by simp
  with True assms(2) show ?thesis by (auto simp: existsP_def)
next
  case False
  let ?fp = "getFilepath st (md5hex b)"
  from False assms(1) obtain fs1 where w: "writeFileP fs1 ?fp b = Inr fs'"
    by (rule put_fresh)
  from False have "?fp \<noteq> ''/''" "?fp \<noteq> ''.''"
    by (auto simp: existsP_def lookupNode_def)
  with writeFileP_result [OF w] show ?thesis by (simp add: lookupNode_def)
qed

lemma get_stored:
  assumes "lookupNode fs (getFilepath st ident) = Some (File b)" and "s \<le> e" and "e \<le> length b"
    and "e - s \<le> kMaxLength"
  shows "get st fs kMaxLength fill ident (s, e) = Inr (take (e - s) (drop s b))"
proof -
  have n: "nat (int e - int s) = e - s" "\<not> int e - int s < 0"
    "\<not> int kMaxLength < int e - int s"
    using assms(2,4) by simp_all
  have l: "min (e - s) (length b - s) = e - s" using assms(3) by simp
  show ?thesis
    using assms(2,3)
    by (simp add: get_def Let_def getRangeLength_def newBuffer_def n existsP_def openP_def
        readP_def assms(1) l)
qed

lemma pipeP_result:
  "pipeP fs path chunks = Inr fs' \<Longrightarrow> fs' = fs(path \<mapsto> File (concat chunks))"
  by (simp add: pipeP_def writeFileP_result)

lemma fold_mkdir:
  "fold (\<lambda>a m. m(a \<mapsto> Directory)) chain fs q
     = (if q \<in> set chain then Some Directory else fs q)"
  by (induction chain arbitrary: fs) auto

lemma mkdirpP_keeps_files:
  assumes "mkdirpP fs path = Inr fs'" and "fs q = Some (File c)"
    and "q \<noteq> ''/''" and "q \<noteq> ''.''"
  shows "fs' q = Some (File c)"
proof -
  let ?chain = "ancestors (length path) path"
  from assms(1) have ok: "\<not> list_ex (\<lambda>a. isFile (lookupNode fs a)) ?chain"
    and r: "fs' = fold (\<lambda>a m. m(a \<mapsto> Directory)) ?chain fs"
    by (simp_all add: mkdirpP_def Let_def split: if_splits)
  have "isFile (lookupNode fs q)" using assms(2,3,4) by (simp add: isFile_def lookupNode_def)
  with ok have "q \<notin> set ?chain" by (auto simp: list_ex_iff)
  then show ?thesis using assms(2) by (simp add: r fold_mkdir)
qed

section \<open>Buffered put and ranged get\<close>

text \<open>
  C1. When the blob file of a buffer already exists, \<^verbatim>\<open>put\<close> leaves the filesystem as it
  is, but it resolves with the bare digest string, not with the pair of digest and byte
  count that the first put of the same buffer resolves with. On the example store the
  first put of \<^verbatim>\<open>abc\<close> gives the pair with byte count 3 and the second put gives the digest
  alone.
\<close>

theorem put_existing_drops_byteCount:
  "fst (put exampleDigest exampleStorage [] exampleFs (Buffer abc)) = Inr (Md5Count md5_abc 3) \<and>
   fst (put exampleDigest exampleStorage []
          (snd (put exampleDigest exampleStorage [] exampleFs (Buffer abc))) (Buffer abc))
     = Inr (Md5 md5_abc)"
  by code_simp

text \<open>
  C2. After a successful put of the buffer \<open>b\<close>, a get of its identifier over the range
  \<open>[s, e]\<close> with \<open>s \<le> e \<le> length b\<close> returns the bytes \<open>b[s:e]\<close>, and over
  \<open>[0, length b]\<close> it returns \<open>b\<close>. The put stores \<open>b\<close> when nothing is at the shard path; a
  file that is already there is trusted to hold \<open>b\<close>, which is the second assumption. The
  last assumption holds of every buffer the runtime can hand to \<^verbatim>\<open>put\<close>: none is longer
  than the runtime's maximum.
\<close>

theorem put_get_roundtrip:
  assumes "put md5hex st uuid fs (Buffer b) = (Inr r, fs')"
    and "lookupNode fs (getFilepath st (md5hex b)) = None \<or>
         lookupNode fs (getFilepath st (md5hex b)) = Some (File b)"
    and "s \<le> e" and "e \<le> length b"
    and "length b \<le> kMaxLength"
  shows "identifier_of r = md5hex b \<and>
         get st fs' kMaxLength fill (identifier_of r) (s, e) = Inr (take (e - s) (drop s b)) \<and>
         get st fs' kMaxLength fill (identifier_of r) (0, length b) = Inr b"
proof -
  have i: "identifier_of r = md5hex b" using assms(1) by (rule put_buffer_identifier)
  have f: "lookupNode fs' (getFilepath st (identifier_of r)) = Some (File b)"
    using put_buffer_stored [OF assms(1,2)] by (simp only: i)
  have k: "e - s \<le> kMaxLength" using assms(4,5) by simp
  have "get st fs' kMaxLength fill (identifier_of r) (s, e) = Inr (take (e - s) (drop s b))"
    using f assms(3,4) k by (rule get_stored)
  moreover have "get st fs' kMaxLength fill (identifier_of r) (0, length b) = Inr b"
    using get_stored [OF f, of 0 "length b" kMaxLength fill] assms(5) by simp
  ultimately show ?thesis using i by (intro conjI)
qed

theorem put_get_roundtrip_witness:
  "put exampleDigest exampleStorage [] exampleFs (Buffer abc)
     = (Inr (Md5Count md5_abc 3), snd (put exampleDigest exampleStorage [] exampleFs (Buffer abc))) \<and>
   lookupNode exampleFs (getFilepath exampleStorage (exampleDigest abc)) = None \<and>
   (1::nat) \<le> 3 \<and> 3 \<le> length abc \<and> length abc \<le> exampleMaxLength \<and>
   get exampleStorage (snd (put exampleDigest exampleStorage [] exampleFs (Buffer abc)))
     exampleMaxLength (\<lambda>i. 0) md5_abc (1, 3) = Inr [0x62, 0x63]"
proof -
  let ?fs' = "snd (put exampleDigest exampleStorage [] exampleFs (Buffer abc))"
  have "fst (put exampleDigest exampleStorage [] exampleFs (Buffer abc)) = Inr (Md5Count md5_abc 3)"
    by code_simp
  then have h1: "put exampleDigest exampleStorage [] exampleFs (Buffer abc)
      = (Inr (Md5Count md5_abc 3), ?fs')"
    by (simp add: prod_eq_iff)
  have h2: "lookupNode exampleFs (getFilepath exampleStorage (exampleDigest abc)) = None"
    by code_simp
  have h3: "(1::nat) \<le> 3" by simp
  have h4: "3 \<le> length abc" by code_simp
  have h5: "length abc \<le> exampleMaxLength" by (simp add: abc_def exampleMaxLength_def)
  have v: "take (3 - 1) (drop 1 abc) = [0x62, 0x63]" by code_simp
  from put_get_roundtrip [OF h1 disjI1 [OF h2] h3 h4 h5, of "\<lambda>i. 0"]
  have "get exampleStorage ?fs' exampleMaxLength (\<lambda>i. 0) md5_abc (1, 3) = Inr [0x62, 0x63]"
    by (simp only: v identifier_of.simps)
  with h1 h2 h3 h4 h5 show ?thesis by (intro conjI)
qed

section \<open>Missing blobs\<close>




text \<open>
  C6, as the claim is worded, fails: \<^verbatim>\<open>delete\<close> passes on whatever error \<^verbatim>\<open>unlink\<close> gives,
  and where \<^verbatim>\<open>root/90\<close> is a regular file the path of a blob that was never stored runs
  through that file, so the error is \<^verbatim>\<open>ENOTDIR\<close> and not \<^verbatim>\<open>ENOENT\<close>.
\<close>

theorem delete_notFound_counterexample:
  "isIdentifier md5_abc \<and>
   \<not> existsP blockedFs (getFilepath exampleStorage md5_abc) \<and>
   delete exampleStorage blockedFs md5_abc = Inl ENOTDIR \<and>
   delete exampleStorage blockedFs md5_abc \<noteq> Inl ENOENT"
proof -
  have i: "isIdentifier md5_abc" by code_simp
  have a: "\<not> existsP blockedFs (getFilepath exampleStorage md5_abc)" by code_simp
  have u: "underFile blockedFs (getFilepath exampleStorage md5_abc)" by code_simp
  have d: "delete exampleStorage blockedFs md5_abc = Inl ENOTDIR"
    using a u by (simp add: delete_def unlinkP_def existsP_def missingError_def)
  then have "delete exampleStorage blockedFs md5_abc \<noteq> Inl ENOENT" by simp
  with i a d show ?thesis by (intro conjI)
qed

text \<open>
  C6, amended. For a store with a plain root and an identifier with nothing at its
  resolved path, \<^verbatim>\<open>delete\<close> never succeeds: it fails with the \<^verbatim>\<open>ENOENT\<close> error of
  \<^verbatim>\<open>unlink\<close>, unless one of the directories on the path is a regular file, in which case
  it fails with \<^verbatim>\<open>ENOTDIR\<close>.
\<close>

theorem delete_notFound:
  assumes "plainPath (dir st)" and "isIdentifier ident"
    and "\<not> existsP fs (getFilepath st ident)"
  shows "delete st fs ident
           = Inl (if underFile fs (getFilepath st ident) then ENOTDIR else ENOENT)"
  using assms(3) by (simp add: delete_def unlinkP_def existsP_def missingError_def)

theorem delete_notFound_witness:
  "plainPath (dir exampleStorage) \<and> isIdentifier md5_abc \<and>
   \<not> existsP exampleFs (getFilepath exampleStorage md5_abc) \<and>
   \<not> underFile exampleFs (getFilepath exampleStorage md5_abc) \<and>
   delete exampleStorage exampleFs md5_abc = Inl ENOENT"
proof -
  have p: "plainPath (dir exampleStorage)" by code_simp
  have i: "isIdentifier md5_abc" by code_simp
  have a: "\<not> existsP exampleFs (getFilepath exampleStorage md5_abc)" by code_simp
  have u: "\<not> underFile exampleFs (getFilepath exampleStorage md5_abc)" by code_simp
  from delete_notFound [OF p i a] u
  have "delete exampleStorage exampleFs md5_abc = Inl ENOENT"
    by (simp only: if_False)
  with p i a u show ?thesis by (intro conjI)
qed

section \<open>Streamed put\<close>

text \<open>
  C7. A successful streamed put of the chunks and a successful buffered put of their
  concatenation give the same identifier: the digest of the hash object that was fed
  chunk by chunk is the digest of the whole buffer.
\<close>

theorem streamed_put_same_identifier:
  assumes "put md5hex st uuid1 fs1 (Buffer (concat chunks)) = (Inr r1, fs1')"
    and "put md5hex st uuid2 fs2 (Readable chunks) = (Inr r2, fs2')"
  shows "identifier_of r2 = identifier_of r1 \<and>
         hash_digest md5hex (fst (onData createHash 0 chunks))
           = hash_digest md5hex (hash_update createHash (concat chunks))"
proof -
  have "identifier_of r1 = md5hex (concat chunks)"
    using assms(1) by (rule put_buffer_identifier)
  moreover have "putStream md5hex st uuid2 fs2 chunks = (Inr r2, fs2')"
    using assms(2) by (simp add: put_def)
  then have "r2 = Md5Count (md5hex (concat chunks)) (length (concat chunks))"
    by (rule putStream_result)
  then have "identifier_of r2 = md5hex (concat chunks)"
    by simp
  moreover have "hash_digest md5hex (fst (onData createHash 0 chunks))
      = hash_digest md5hex (hash_update createHash (concat chunks))"
    by (simp add: onData_eq hash_update_def createHash_def)
  ultimately show ?thesis by simp
qed

theorem streamed_put_same_identifier_witness:
  "put exampleDigest exampleStorage [] exampleFs (Buffer (concat exampleChunks))
     = (Inr (Md5Count md5_abc 3),
        snd (put exampleDigest exampleStorage [] exampleFs (Buffer (concat exampleChunks)))) \<and>
   put exampleDigest exampleStorage exampleUuid exampleFs (Readable exampleChunks)
     = (Inr (Md5Count md5_abc 3),
        snd (put exampleDigest exampleStorage exampleUuid exampleFs (Readable exampleChunks))) \<and>
   identifier_of (Md5Count md5_abc 3) = identifier_of (Md5Count md5_abc 3) \<and>
   hash_digest exampleDigest (fst (onData createHash 0 exampleChunks)) = md5_abc"
proof -
  have "fst (put exampleDigest exampleStorage [] exampleFs (Buffer (concat exampleChunks)))
      = Inr (Md5Count md5_abc 3)"
    by code_simp
  then have h1: "put exampleDigest exampleStorage [] exampleFs (Buffer (concat exampleChunks))
     = (Inr (Md5Count md5_abc 3),
        snd (put exampleDigest exampleStorage [] exampleFs (Buffer (concat exampleChunks))))"
    by (simp add: prod_eq_iff)
  have "fst (put exampleDigest exampleStorage exampleUuid exampleFs (Readable exampleChunks))
      = Inr (Md5Count md5_abc 3)"
    by code_simp
  then have h2: "put exampleDigest exampleStorage exampleUuid exampleFs (Readable exampleChunks)
     = (Inr (Md5Count md5_abc 3),
        snd (put exampleDigest exampleStorage exampleUuid exampleFs (Readable exampleChunks)))"
    by (simp add: prod_eq_iff)
  have v: "hash_digest exampleDigest (hash_update createHash (concat exampleChunks)) = md5_abc"
    by code_simp
  note t = streamed_put_same_identifier [OF h1 h2]
  from t have "identifier_of (Md5Count md5_abc 3) = identifier_of (Md5Count md5_abc 3)"
    by (rule conjunct1)
  moreover from t have "hash_digest exampleDigest (fst (onData createHash 0 exampleChunks)) = md5_abc"
    by (simp only: v)
  ultimately show ?thesis using h1 h2 by (intro conjI)
qed

text \<open>
  C8. When a streamed put succeeds, nothing is left at the staging path, in either
  branch. Unless the staging path is the shard path itself, the blob is at its shard path
  afterwards: where nothing was there before, the shard path now holds a file with exactly
  the bytes of the stream, copied from the staging file; where the blob was there before,
  it is what it was.
\<close>

theorem putStream_removes_staging:
  assumes "putStream md5hex st uuid fs chunks = (Inr r, fs')"
  shows "\<not> existsP fs' (tmpFilename st uuid) \<and>
         (tmpFilename st uuid \<noteq> getFilepath st (identifier_of r) \<longrightarrow>
            existsP fs' (getFilepath st (identifier_of r))) \<and>
         (tmpFilename st uuid \<noteq> getFilepath st (identifier_of r) \<and>
          \<not> existsP fs (getFilepath st (identifier_of r)) \<longrightarrow>
            lookupNode fs' (getFilepath st (identifier_of r)) = Some (File (concat chunks))) \<and>
         (tmpFilename st uuid \<noteq> getFilepath st (identifier_of r) \<and>
          existsP fs (getFilepath st (identifier_of r)) \<longrightarrow>
            lookupNode fs' (getFilepath st (identifier_of r))
              = lookupNode fs (getFilepath st (identifier_of r)))"
proof -
  let ?tmp = "tmpFilename st uuid"
  let ?md5 = "md5hex (concat chunks)"
  let ?fp = "getFilepath st ?md5"
  from assms obtain fs1 where p: "pipeP fs ?tmp chunks = Inr fs1" and body:
    "(if existsP fs1 ?fp then
        (case unlinkP fs1 ?tmp of
           Inl e \<Rightarrow> (Inl e, fs1)
         | Inr fs2 \<Rightarrow> (Inr (Md5Count ?md5 (length (concat chunks))), fs2))
      else
        (case mkdirpP fs1 (dirname ?fp) of
           Inl e \<Rightarrow> (Inl e, fs1)
         | Inr fs2 \<Rightarrow>
             (case copyFileP fs2 ?tmp ?fp of
                Inl e \<Rightarrow> (Inl e, fs2)
              | Inr fs3 \<Rightarrow>
                  (case unlinkP fs3 ?tmp of
                     Inl e \<Rightarrow> (Inl e, fs3)
                   | Inr fs4 \<Rightarrow> (Inr (Md5Count ?md5 (length (concat chunks))), fs4)))))
     = (Inr r, fs')"
    by (rule putStream_success)
  have fs1: "fs1 = fs(?tmp \<mapsto> File (concat chunks))"
    using p by (rule pipeP_result)
  have same: "lookupNode fs1 ?fp = lookupNode fs ?fp" if "?tmp \<noteq> ?fp"
    using that by (simp add: fs1 lookupNode_def)
  have i: "identifier_of r = ?md5"
    using putStream_result [OF assms] by simp
  have main: "\<not> existsP fs' ?tmp \<and>
      (?tmp \<noteq> ?fp \<longrightarrow> existsP fs' ?fp) \<and>
      (?tmp \<noteq> ?fp \<and> \<not> existsP fs ?fp \<longrightarrow> lookupNode fs' ?fp = Some (File (concat chunks))) \<and>
      (?tmp \<noteq> ?fp \<and> existsP fs ?fp \<longrightarrow> lookupNode fs' ?fp = lookupNode fs ?fp)"
  proof (cases "existsP fs1 ?fp")
    case True
    with body obtain fs2 where u: "unlinkP fs1 ?tmp = Inr fs2" and r: "fs' = fs2"
      by (cases "unlinkP fs1 ?tmp") simp_all
    have gone: "\<not> existsP fs2 ?tmp" using u by (rule unlinkP_gone)
    have fs2: "fs2 = fs1(?tmp := None)" using unlinkP_removes [OF u] by simp
    have kept: "lookupNode fs2 ?fp = lookupNode fs ?fp" if "?tmp \<noteq> ?fp"
      using that by (simp add: fs2 fs1 lookupNode_def)
    have before: "existsP fs ?fp" if "?tmp \<noteq> ?fp"
      using True same [OF that] by (simp add: existsP_def)
    show ?thesis
    proof (cases "?tmp = ?fp")
      case True
      with gone show ?thesis by (simp add: r)
    next
      case ne: False
      from gone kept [OF ne] before [OF ne] ne show ?thesis
        by (simp add: r existsP_def)
    qed
  next
    case False
    with body obtain fs2 where m: "mkdirpP fs1 (dirname ?fp) = Inr fs2"
      by (cases "mkdirpP fs1 (dirname ?fp)") simp_all
    with body False obtain fs3 where c: "copyFileP fs2 ?tmp ?fp = Inr fs3"
      by (cases "copyFileP fs2 ?tmp ?fp") simp_all
    with body False m obtain fs4 where u: "unlinkP fs3 ?tmp = Inr fs4" and r: "fs' = fs4"
      by (cases "unlinkP fs3 ?tmp") simp_all
    have gone: "\<not> existsP fs4 ?tmp" using u by (rule unlinkP_gone)
    have fs4: "fs4 = fs3(?tmp := None)" using unlinkP_removes [OF u] by simp
    from copyFileP_result [OF c] obtain d where src: "lookupNode fs2 ?tmp = Some (File d)"
      and fs3: "fs3 = fs2(?fp \<mapsto> File d)"
      by blast
    from src have ts: "?tmp \<noteq> ''/''" "?tmp \<noteq> ''.''"
      using isFile_not_special [of fs2 ?tmp] by (simp_all add: isFile_def)
    have "fs1 ?tmp = Some (File (concat chunks))" by (simp add: fs1)
    with m have "fs2 ?tmp = Some (File (concat chunks))"
      using ts by (rule mkdirpP_keeps_files)
    with src ts have d: "d = concat chunks" by (simp add: lookupNode_def)
    have fps: "?fp \<noteq> ''/''" "?fp \<noteq> ''.''"
      using False by (auto simp: existsP_def lookupNode_def)
    have stored: "lookupNode fs4 ?fp = Some (File (concat chunks))" if "?tmp \<noteq> ?fp"
      using that fps by (simp add: fs4 fs3 d lookupNode_def)
    have absent: "\<not> existsP fs ?fp" if "?tmp \<noteq> ?fp"
      using False same [OF that] by (simp add: existsP_def)
    show ?thesis
    proof (cases "?tmp = ?fp")
      case True
      with gone show ?thesis by (simp add: r)
    next
      case ne: False
      from gone stored [OF ne] absent [OF ne] ne show ?thesis
        by (simp add: r existsP_def)
    qed
  qed
  show ?thesis unfolding i by (rule main)
qed

text \<open>
  On the example store the first streamed put of \<^verbatim>\<open>abc\<close> takes the copy branch and the
  second one finds the blob.
\<close>

theorem putStream_removes_staging_witness:
  "putStream exampleDigest exampleStorage exampleUuid exampleFs exampleChunks
     = (Inr (Md5Count md5_abc 3),
        snd (putStream exampleDigest exampleStorage exampleUuid exampleFs exampleChunks)) \<and>
   \<not> existsP (snd (putStream exampleDigest exampleStorage exampleUuid exampleFs exampleChunks))
       (tmpFilename exampleStorage exampleUuid) \<and>
   tmpFilename exampleStorage exampleUuid \<noteq> getFilepath exampleStorage md5_abc \<and>
   \<not> existsP exampleFs (getFilepath exampleStorage md5_abc) \<and>
   existsP (snd (putStream exampleDigest exampleStorage exampleUuid exampleFs exampleChunks))
     (getFilepath exampleStorage md5_abc) \<and>
   lookupNode (snd (putStream exampleDigest exampleStorage exampleUuid exampleFs exampleChunks))
     (getFilepath exampleStorage md5_abc) = Some (File abc) \<and>
   putStream exampleDigest exampleStorage exampleUuid
       (snd (putStream exampleDigest exampleStorage exampleUuid exampleFs exampleChunks))
       exampleChunks
     = (Inr (Md5Count md5_abc 3),
        snd (putStream exampleDigest exampleStorage exampleUuid
               (snd (putStream exampleDigest exampleStorage exampleUuid exampleFs exampleChunks))
               exampleChunks)) \<and>
   lookupNode (snd (putStream exampleDigest exampleStorage exampleUuid
               (snd (putStream exampleDigest exampleStorage exampleUuid exampleFs exampleChunks))
               exampleChunks))
     (getFilepath exampleStorage md5_abc) = Some (File abc)"
proof -
  let ?fs1 = "snd (putStream exampleDigest exampleStorage exampleUuid exampleFs exampleChunks)"
  let ?fs2 = "snd (putStream exampleDigest exampleStorage exampleUuid ?fs1 exampleChunks)"
  have "fst (putStream exampleDigest exampleStorage exampleUuid exampleFs exampleChunks)
      = Inr (Md5Count md5_abc 3)"
    by code_simp
  then have h1: "putStream exampleDigest exampleStorage exampleUuid exampleFs exampleChunks
      = (Inr (Md5Count md5_abc 3), ?fs1)"
    by (simp add: prod_eq_iff)
  have "fst (putStream exampleDigest exampleStorage exampleUuid ?fs1 exampleChunks)
      = Inr (Md5Count md5_abc 3)"
    by code_simp
  then have h2: "putStream exampleDigest exampleStorage exampleUuid ?fs1 exampleChunks
      = (Inr (Md5Count md5_abc 3), ?fs2)"
    by (simp add: prod_eq_iff)
  have d: "tmpFilename exampleStorage exampleUuid \<noteq> getFilepath exampleStorage md5_abc"
    by code_simp
  have n: "\<not> existsP exampleFs (getFilepath exampleStorage md5_abc)" by code_simp
  have c: "concat exampleChunks = abc" by code_simp
  note t1 = putStream_removes_staging [OF h1]
  note t2 = putStream_removes_staging [OF h2]
  from t1 have a: "\<not> existsP ?fs1 (tmpFilename exampleStorage exampleUuid)"
    by (rule conjunct1)
  from t1 d have b: "existsP ?fs1 (getFilepath exampleStorage md5_abc)"
    by (simp only: identifier_of.simps simp_thms)
  from t1 d n have s1: "lookupNode ?fs1 (getFilepath exampleStorage md5_abc) = Some (File abc)"
    by (simp only: identifier_of.simps simp_thms c)
  from t2 d b have "lookupNode ?fs2 (getFilepath exampleStorage md5_abc)
      = lookupNode ?fs1 (getFilepath exampleStorage md5_abc)"
    by (simp only: identifier_of.simps simp_thms)
  then have s2: "lookupNode ?fs2 (getFilepath exampleStorage md5_abc) = Some (File abc)"
    by (simp only: s1)
  from h1 a d n b s1 h2 s2 show ?thesis by (intro conjI)
qed

text \<open>
  C9. When the staging path already exists, a streamed put fails with the error
  \<^verbatim>\<open>File already exists\<close> and the filesystem is unchanged: nothing is written, no blob is
  created, and no other staging name is tried.
\<close>

theorem putStream_conflict:
  assumes "existsP fs (tmpFilename st uuid)"
  shows "putStream md5hex st uuid fs chunks = (Inl (Error ''File already exists''), fs)"
  using assms by (simp add: putStream_def)

theorem putStream_conflict_witness:
  "existsP (exampleFs(''/tmp/1b9d6bcd-bbfd-4b2d-9b5d-ab8dfbbd4bed'' \<mapsto> File []))
     (tmpFilename exampleStorage exampleUuid) \<and>
   putStream exampleDigest exampleStorage exampleUuid
       (exampleFs(''/tmp/1b9d6bcd-bbfd-4b2d-9b5d-ab8dfbbd4bed'' \<mapsto> File [])) exampleChunks
     = (Inl (Error ''File already exists''),
        exampleFs(''/tmp/1b9d6bcd-bbfd-4b2d-9b5d-ab8dfbbd4bed'' \<mapsto> File []))"
proof -
  have h: "existsP (exampleFs(''/tmp/1b9d6bcd-bbfd-4b2d-9b5d-ab8dfbbd4bed'' \<mapsto> File []))
     (tmpFilename exampleStorage exampleUuid)"
    by code_simp
  from h putStream_conflict [OF h] show ?thesis by (intro conjI)
qed

end
